theory Spec2Isabelle
  imports Main "HOL-Library.Multiset"
begin

section \<open>Errors\<close>

text \<open>
  A thrown JavaScript exception is a value: \<open>Error msg\<close> is \<open>new Error(msg)\<close>, and
  \<open>TypeError\<close> is what the engine throws when a property of \<open>undefined\<close> is written.
\<close>

datatype error = Error string | TypeError

section \<open>Brace expansion: \<open>expandBraces\<close> of 10-katas-1-tasks.js\<close>

text \<open>
  A JavaScript string is the list of its code units. The three characters the code tests
  for (\<open>{\<close>, \<open>}\<close> and the comma) are single code units, so iterating by code point
  (\<open>for (let ch of s)\<close>) and appending each one rebuilds the same list.
\<close>

text \<open>\<open>s.slice(a, b)\<close> and \<open>s.slice(a)\<close> for non-negative \<open>a\<close>, \<open>b\<close>.\<close>

definition slice :: "string \<Rightarrow> nat \<Rightarrow> nat \<Rightarrow> string" where
  "slice s a b = take (b - a) (drop a s)"

text \<open>
  The outer \<open>while (i < s.length)\<close> of \<open>expand\<close> up to the first opening brace:
  its index, or \<open>None\<close> when the loop runs off the end (the code then returns \<open>[s]\<close>).
\<close>

function findOpen :: "string \<Rightarrow> nat \<Rightarrow> nat option" where
  "findOpen s i =
     (if i < length s
      then (if s ! i = CHR ''{'' then Some i else findOpen s (i + 1))
      else None)"
  by pat_completeness auto
termination
  by (relation "measure (\<lambda>(s, i). length s - i)") auto

declare findOpen.simps [simp del]

text \<open>
  The inner \<open>while (i < s.length && level > 0)\<close>: the final \<open>i\<close> and \<open>level\<close>.
\<close>

function scanGroup :: "string \<Rightarrow> nat \<Rightarrow> nat \<Rightarrow> nat \<times> nat" where
  "scanGroup s i level =
     (if i < length s \<and> level > 0
      then scanGroup s (i + 1)
             (if s ! i = CHR ''{'' then level + 1
              else if s ! i = CHR ''}'' then level - 1
              else level)
      else (i, level))"
  by pat_completeness auto
termination
  by (relation "measure (\<lambda>(s, i, level). length s - i)") auto

declare scanGroup.simps [simp del]

text \<open>
  \<open>splitCommaSafe\<close>: the \<open>for (let ch of s)\<close> loop over the remaining characters, with
  the three variables \<open>result\<close>, \<open>braceLevel\<close> and \<open>current\<close>, and the final push.
  \<open>braceLevel\<close> is decremented without a guard, so it is an integer.
\<close>

fun splitLoop :: "string \<Rightarrow> string list \<Rightarrow> int \<Rightarrow> string \<Rightarrow> string list" where
  "splitLoop [] result braceLevel current = result @ [current]"
| "splitLoop (ch # s) result braceLevel current =
     (if ch = CHR '','' \<and> braceLevel = 0
      then splitLoop s (result @ [current]) braceLevel []
      else splitLoop s result
             (braceLevel + (if ch = CHR ''{'' then 1 else 0) - (if ch = CHR ''}'' then 1 else 0))
             (current @ [ch]))"

definition splitCommaSafe :: "string \<Rightarrow> string list" where
  "splitCommaSafe s = splitLoop s [] 0 []"

text \<open>
  The two nested \<open>for\<close> loops of \<open>expand\<close>. \<open>tails\<close> is the outcome of \<open>expand(suffix)\<close>,
  which the code evaluates once per variant (and not at all without a variant); when it
  throws, the exception leaves the loops.
\<close>

fun expandedLoop ::
  "string \<Rightarrow> string list \<Rightarrow> error + string list \<Rightarrow> string list \<Rightarrow> error + string list" where
  "expandedLoop prefix [] tails expanded = Inr expanded"
| "expandedLoop prefix (variant # variants) tails expanded =
     (case tails of
        Inl e \<Rightarrow> Inl e
      | Inr ts \<Rightarrow>
          expandedLoop prefix variants tails
            (expanded @ map (\<lambda>tail. prefix @ variant @ tail) ts))"

lemma findOpen_Some:
  "findOpen s i = Some k \<Longrightarrow> i \<le> k \<and> k < length s \<and> s ! k = CHR ''{''"
proof (induction s i rule: findOpen.induct)
  case (1 s i)
  then show ?case
    by (subst (asm) (2) findOpen.simps) (fastforce split: if_splits)
qed

lemma scanGroup_ge: "scanGroup s i level = (i', level') \<Longrightarrow> i \<le> i'"
proof (induction s i level rule: scanGroup.induct)
  case (1 s i level)
  then show ?case
    by (subst (asm) (2) scanGroup.simps) (fastforce split: if_splits)
qed

lemma expand_suffix_shorter:
  assumes "findOpen s 0 = Some openIndex" and "scanGroup s (openIndex + 1) 1 = (i, level)"
  shows "length (drop i s) < length s"
proof -
  from assms(1) have "openIndex < length s" by (auto dest: findOpen_Some)
  moreover from assms(2) have "openIndex + 1 \<le> i" by (rule scanGroup_ge)
  ultimately show ?thesis by simp
qed

function expand :: "string \<Rightarrow> error + string list" where
  "expand s =
     (case findOpen s 0 of
        None \<Rightarrow> Inr [s]
      | Some openIndex \<Rightarrow>
          (case scanGroup s (openIndex + 1) 1 of
             (i, level) \<Rightarrow>
               if level \<noteq> 0 then Inl (Error ''Unbalanced braces'')
               else
                 let inner = slice s (openIndex + 1) (i - 1);
                     variants = splitCommaSafe inner;
                     prefix = take openIndex s;
                     suffix = drop i s
                 in expandedLoop prefix variants (expand suffix) []))"
  by pat_completeness auto
termination
  by (relation "measure length") (auto dest: expand_suffix_shorter [OF _ sym] expand_suffix_shorter)

declare expand.simps [simp del]

text \<open>
  The generator body: \<open>seen\<close> starts empty, and each value of \<open>expand(str)\<close> is yielded
  unless \<open>seen\<close> has it. \<open>expand(str)\<close> is evaluated in full before the first \<open>yield\<close>,
  so an exception leaves no value yielded.
\<close>

fun yieldLoop :: "string list \<Rightarrow> string set \<Rightarrow> string list" where
  "yieldLoop [] seen = []"
| "yieldLoop (val # vals) seen =
     (if val \<in> seen then yieldLoop vals seen
      else val # yieldLoop vals (insert val seen))"

definition expandBraces :: "string \<Rightarrow> error + string list" where
  "expandBraces str =
     (case expand str of
        Inl e \<Rightarrow> Inl e
      | Inr vals \<Rightarrow> Inr (yieldLoop vals {}))"

subsection \<open>The generator with its \<open>Set\<close> object on a heap\<close>

text \<open>
  \<open>seen\<close> is a mutable \<open>Set\<close> object. To ask whether a call can see what an earlier call
  left behind, the objects are put on a heap: the list of the \<open>Set\<close> objects allocated so
  far, a reference being an index. \<open>new Set()\<close> allocates the next index, \<open>seen.has(val)\<close>
  reads the object behind the reference and \<open>seen.add(val)\<close> updates it in place.
\<close>

type_synonym heap = "string set list"

definition newSet :: "heap \<Rightarrow> nat \<times> heap" where
  "newSet h = (length h, h @ [{}])"

definition setHas :: "heap \<Rightarrow> nat \<Rightarrow> string \<Rightarrow> bool" where
  "setHas h r val = (val \<in> h ! r)"

definition setAdd :: "heap \<Rightarrow> nat \<Rightarrow> string \<Rightarrow> heap" where
  "setAdd h r val = h[r := insert val (h ! r)]"

text \<open>The \<open>for (const val of expand(str))\<close> loop: the values yielded and the final heap.\<close>

fun yieldLoopHeap :: "nat \<Rightarrow> string list \<Rightarrow> heap \<Rightarrow> string list \<times> heap" where
  "yieldLoopHeap seen [] h = ([], h)"
| "yieldLoopHeap seen (val # vals) h =
     (if setHas h seen val then yieldLoopHeap seen vals h
      else case yieldLoopHeap seen vals (setAdd h seen val) of
             (out, h') \<Rightarrow> (val # out, h'))"

text \<open>
  A call of \<open>expandBraces(str)\<close>, run to its end in the heap \<open>h\<close>: \<open>seen\<close> is allocated
  first, then \<open>expand(str)\<close> is evaluated, then the loop runs.
\<close>

definition expandBracesHeap :: "string \<Rightarrow> heap \<Rightarrow> (error + string list) \<times> heap" where
  "expandBracesHeap str h =
     (case newSet h of
        (seen, h1) \<Rightarrow>
          (case expand str of
             Inl e \<Rightarrow> (Inl e, h1)
           | Inr vals \<Rightarrow>
               (case yieldLoopHeap seen vals h1 of (out, h2) \<Rightarrow> (Inr out, h2))))"

section \<open>Brace expansion: auxiliary notions and lemmas\<close>

text \<open>
  The value of \<open>braceLevel\<close> after \<open>splitCommaSafe\<close>'s loop has appended the characters
  \<open>s\<close> to \<open>current\<close>, starting from \<open>l\<close>: the brace-nesting depth after \<open>s\<close>.
\<close>

fun levelAfter :: "int \<Rightarrow> string \<Rightarrow> int" where
  "levelAfter l [] = l"
| "levelAfter l (ch # s) =
     levelAfter (l + (if ch = CHR ''{'' then 1 else 0) - (if ch = CHR ''}'' then 1 else 0)) s"

text \<open>\<open>s\<close>, read from depth \<open>l\<close>, has a comma at depth 0.\<close>

fun hasTopComma :: "int \<Rightarrow> string \<Rightarrow> bool" where
  "hasTopComma l [] = False"
| "hasTopComma l (ch # s) =
     ((ch = CHR '','' \<and> l = 0) \<or>
      hasTopComma (l + (if ch = CHR ''{'' then 1 else 0) - (if ch = CHR ''}'' then 1 else 0)) s)"

text \<open>The alternatives written one after the other with a comma between neighbours.\<close>

fun joinComma :: "string list \<Rightarrow> string" where
  "joinComma [] = []"
| "joinComma [a] = a"
| "joinComma (a # b # rest) = a @ CHR '','' # joinComma (b # rest)"

text \<open>
  The number of opening braces still unclosed after the characters \<open>s\<close>, starting with
  \<open>d\<close> of them; a closing brace with nothing open changes nothing (the subtraction on
  \<open>nat\<close> stops at 0).
\<close>

fun unclosed :: "nat \<Rightarrow> string \<Rightarrow> nat" where
  "unclosed d [] = d"
| "unclosed d (ch # s) =
     unclosed (if ch = CHR ''{'' then d + 1 else if ch = CHR ''}'' then d - 1 else d) s"

lemma levelAfter_append: "levelAfter l (a @ b) = levelAfter (levelAfter l a) b"
  by (induction a arbitrary: l) simp_all

lemma hasTopComma_append:
  "hasTopComma l (a @ b) = (hasTopComma l a \<or> hasTopComma (levelAfter l a) b)"
  by (induction a arbitrary: l) auto

lemma hasTopComma_comma_free: "CHR '','' \<notin> set s \<Longrightarrow> \<not> hasTopComma l s"
  by (induction s arbitrary: l) auto

lemma joinComma_snoc:
  "joinComma (xs @ [a]) = (if xs = [] then a else joinComma xs @ CHR '','' # a)"
  by (induction xs rule: joinComma.induct) simp_all

lemma splitLoop_not_Nil: "splitLoop s result l current \<noteq> []"
  by (induction s arbitrary: result l current) simp_all

lemma splitLoop_no_top_comma:
  "\<not> hasTopComma l s \<Longrightarrow> splitLoop s result l current = result @ [current @ s]"
  by (induction s arbitrary: l current) auto

lemma splitLoop_join:
  "joinComma (splitLoop s result l current) = joinComma (result @ [current]) @ s"
proof (induction s arbitrary: result l current)
  case Nil
  show ?case by simp
next
  case (Cons ch s)
  have snoc: "joinComma (result @ [current @ [ch]]) = joinComma (result @ [current]) @ [ch]"
    by (simp add: joinComma_snoc)
  have split: "joinComma ((result @ [current]) @ [[]]) = joinComma (result @ [current]) @ [CHR '','']"
    by (subst joinComma_snoc) simp
  show ?case
  proof (cases "ch = CHR '','' \<and> l = 0")
    case True
    then show ?thesis using Cons.IH [of "result @ [current]" l "[]"] split by simp
  next
    case False
    then have "splitLoop (ch # s) result l current =
        splitLoop s result
          (l + (if ch = CHR ''{'' then 1 else 0) - (if ch = CHR ''}'' then 1 else 0))
          (current @ [ch])"
      by auto
    then show ?thesis using Cons.IH [of result _ "current @ [ch]"] snoc by simp
  qed
qed

lemma splitLoop_alternatives:
  assumes "l = levelAfter 0 current"
    and "\<not> hasTopComma 0 current"
    and "\<And>a. a \<in> set result \<Longrightarrow> \<not> hasTopComma 0 a"
    and "a \<in> set (splitLoop s result l current)"
  shows "\<not> hasTopComma 0 a"
  using assms
proof (induction s arbitrary: result l current)
  case Nil
  then show ?case by auto
next
  case (Cons ch s)
  show ?case
  proof (cases "ch = CHR '','' \<and> l = 0")
    case True
    with Cons.prems(4) have mem: "a \<in> set (splitLoop s (result @ [current]) l [])" by simp
    show ?thesis
    proof (rule Cons.IH [OF _ _ _ mem])
      show "l = levelAfter 0 []" using True by simp
      show "\<not> hasTopComma 0 []" by simp
      show "\<not> hasTopComma 0 b" if "b \<in> set (result @ [current])" for b
        using that Cons.prems(2,3) by auto
    qed
  next
    case False
    let ?l = "l + (if ch = CHR ''{'' then 1 else 0) - (if ch = CHR ''}'' then 1 else 0)"
    from False Cons.prems(4) have mem: "a \<in> set (splitLoop s result ?l (current @ [ch]))"
      by auto
    show ?thesis
    proof (rule Cons.IH [OF _ _ _ mem])
      show "?l = levelAfter 0 (current @ [ch])"
        using Cons.prems(1) by (simp add: levelAfter_append)
      show "\<not> hasTopComma 0 (current @ [ch])"
        using False Cons.prems(1,2) by (auto simp: hasTopComma_append)
      show "\<not> hasTopComma 0 b" if "b \<in> set result" for b
        using that Cons.prems(3) by auto
    qed
  qed
qed

lemma splitLoop_cuts:
  assumes "l = levelAfter 0 (joinComma (result @ [current]))"
    and "\<And>k. 0 < k \<Longrightarrow> k \<le> length result \<Longrightarrow> levelAfter 0 (joinComma (take k result)) = 0"
    and "0 < k" and "k < length (splitLoop s result l current)"
  shows "levelAfter 0 (joinComma (take k (splitLoop s result l current))) = 0"
  using assms
proof (induction s arbitrary: result l current)
  case Nil
  then show ?case by simp
next
  case (Cons ch s)
  show ?case
  proof (cases "ch = CHR '','' \<and> l = 0")
    case True
    have eq: "splitLoop (ch # s) result l current = splitLoop s (result @ [current]) l []"
      using True by simp
    have "levelAfter 0 (joinComma (take k (splitLoop s (result @ [current]) l []))) = 0"
    proof (rule Cons.IH)
      show "l = levelAfter 0 (joinComma ((result @ [current]) @ [[]]))"
        using True Cons.prems(1)
        by (subst joinComma_snoc) (simp add: levelAfter_append)
      show "levelAfter 0 (joinComma (take j (result @ [current]))) = 0"
        if "0 < j" "j \<le> length (result @ [current])" for j
      proof (cases "j \<le> length result")
        case True
        then show ?thesis using Cons.prems(2) [of j] that by simp
      next
        case False
        with that have "take j (result @ [current]) = result @ [current]" by simp
        then show ?thesis using \<open>ch = CHR '','' \<and> l = 0\<close> Cons.prems(1) by simp
      qed
      show "0 < k" by fact
      show "k < length (splitLoop s (result @ [current]) l [])"
        using Cons.prems(4) eq by simp
    qed
    then show ?thesis using eq by simp
  next
    case False
    let ?l = "l + (if ch = CHR ''{'' then 1 else 0) - (if ch = CHR ''}'' then 1 else 0)"
    have eq: "splitLoop (ch # s) result l current = splitLoop s result ?l (current @ [ch])"
      using False by auto
    have "levelAfter 0 (joinComma (take k (splitLoop s result ?l (current @ [ch])))) = 0"
    proof (rule Cons.IH)
      have "joinComma (result @ [current @ [ch]]) = joinComma (result @ [current]) @ [ch]"
        by (simp add: joinComma_snoc)
      then show "?l = levelAfter 0 (joinComma (result @ [current @ [ch]]))"
        using Cons.prems(1) by (simp add: levelAfter_append)
      show "levelAfter 0 (joinComma (take j result)) = 0" if "0 < j" "j \<le> length result" for j
        using that Cons.prems(2) by simp
      show "0 < k" by fact
      show "k < length (splitLoop s result ?l (current @ [ch]))"
        using Cons.prems(4) eq by simp
    qed
    then show ?thesis using eq by simp
  qed
qed

lemma findOpen_None: "CHR ''{'' \<notin> set s \<Longrightarrow> findOpen s i = None"
proof (induction s i rule: findOpen.induct)
  case (1 s i)
  show ?case
  proof (cases "i < length s")
    case True
    with "1.prems" have "s ! i \<noteq> CHR ''{''" by (metis nth_mem)
    with True "1.IH" "1.prems" show ?thesis by (subst findOpen.simps) simp
  next
    case False
    then show ?thesis by (subst findOpen.simps) simp
  qed
qed

lemma findOpen_unclosed:
  "findOpen s i = None \<Longrightarrow> unclosed 0 (drop i s) = 0"
  "findOpen s i = Some k \<Longrightarrow> unclosed 0 (drop i s) = unclosed 1 (drop (k + 1) s)"
proof (induction s i rule: findOpen.induct)
  case (1 s i)
  {
    case 1
    show ?case
    proof (cases "i < length s")
      case True
      with 1 have ne: "s ! i \<noteq> CHR ''{''" and rest: "findOpen s (i + 1) = None"
        by (subst (asm) findOpen.simps; simp split: if_splits)+
      from True have "drop i s = s ! i # drop (i + 1) s" by (simp add: Cons_nth_drop_Suc)
      then show ?thesis using ne "1.IH"(1) [OF True ne rest] by simp
    next
      case False
      then show ?thesis by simp
    qed
  next
    case 2
    from 2 have lt: "i < length s" by (subst (asm) findOpen.simps) (simp split: if_splits)
    then have dr: "drop i s = s ! i # drop (i + 1) s" by (simp add: Cons_nth_drop_Suc)
    show ?case
    proof (cases "s ! i = CHR ''{''")
      case True
      with 2 lt have "k = i" by (subst (asm) findOpen.simps) simp
      then show ?thesis using dr True by simp
    next
      case False
      with 2 lt have "findOpen s (i + 1) = Some k" by (subst (asm) findOpen.simps) simp
      then show ?thesis using dr False "1.IH"(2) [OF lt False] by simp
    qed
  }
qed

lemma scanGroup_unclosed:
  "scanGroup s i level = (i', level') \<Longrightarrow>
     unclosed level (drop i s) = unclosed level' (drop i' s) \<and> (level' \<noteq> 0 \<longrightarrow> length s \<le> i')"
proof (induction s i level rule: scanGroup.induct)
  case (1 s i level)
  show ?case
  proof (cases "i < length s \<and> level > 0")
    case True
    let ?l = "if s ! i = CHR ''{'' then level + 1
              else if s ! i = CHR ''}'' then level - 1 else level"
    from True "1.prems" have "scanGroup s (i + 1) ?l = (i', level')"
      by (subst (asm) scanGroup.simps) simp
    from "1.IH" [OF True this]
    have "unclosed ?l (drop (i + 1) s) = unclosed level' (drop i' s)"
      and "level' \<noteq> 0 \<longrightarrow> length s \<le> i'" by simp_all
    moreover from True have "drop i s = s ! i # drop (i + 1) s"
      by (simp add: Cons_nth_drop_Suc)
    ultimately show ?thesis by simp
  next
    case False
    with "1.prems" have "i' = i" "level' = level"
      by (subst (asm) scanGroup.simps; auto)+
    with False show ?thesis by auto
  qed
qed

lemma expandedLoop_Inl:
  "variants \<noteq> [] \<Longrightarrow> expandedLoop prefix variants (Inl e) expanded = Inl e"
  by (cases variants) simp_all

lemma expandedLoop_Inr:
  "expandedLoop prefix variants (Inr ts) expanded =
     Inr (expanded @ concat (map (\<lambda>variant. map (\<lambda>tail. prefix @ variant @ tail) ts) variants))"
  by (induction variants arbitrary: expanded) simp_all

lemma splitCommaSafe_not_Nil: "splitCommaSafe s \<noteq> []"
  by (simp add: splitCommaSafe_def splitLoop_not_Nil)

lemma expand_no_brace: "CHR ''{'' \<notin> set s \<Longrightarrow> expand s = Inr [s]"
  by (subst expand.simps) (simp add: findOpen_None)

lemma expand_unclosed:
  "(0 < unclosed 0 s \<longrightarrow> expand s = Inl (Error ''Unbalanced braces'')) \<and>
   (unclosed 0 s = 0 \<longrightarrow> (\<exists>vals. expand s = Inr vals))"
proof (induction s rule: expand.induct)
  case (1 s)
  show ?case
  proof (cases "findOpen s 0")
    case None
    then have "unclosed 0 s = 0" using findOpen_unclosed(1) [of s 0] by simp
    moreover from None have "expand s = Inr [s]" by (subst expand.simps) simp
    ultimately show ?thesis by simp
  next
    case (Some openIndex)
    obtain i level where sg: "scanGroup s (openIndex + 1) 1 = (i, level)"
      by (cases "scanGroup s (openIndex + 1) 1") auto
    have u1: "unclosed 0 s = unclosed 1 (drop (openIndex + 1) s)"
      using findOpen_unclosed(2) [OF Some] by simp
    from scanGroup_unclosed [OF sg]
    have u2: "unclosed 1 (drop (openIndex + 1) s) = unclosed level (drop i s)"
      and past: "level \<noteq> 0 \<longrightarrow> length s \<le> i" by simp_all
    show ?thesis
    proof (cases "level = 0")
      case False
      then have "unclosed 0 s = level" using u1 u2 past by simp
      moreover from False Some sg have "expand s = Inl (Error ''Unbalanced braces'')"
        by (subst expand.simps) simp
      ultimately show ?thesis using False by simp
    next
      case True
      let ?variants = "splitCommaSafe (slice s (openIndex + 1) (i - 1))"
      have ex: "expand s = expandedLoop (take openIndex s) ?variants (expand (drop i s)) []"
        using True Some sg by (subst expand.simps) (simp add: Let_def)
      have IH: "(0 < unclosed 0 (drop i s) \<longrightarrow> expand (drop i s) = Inl (Error ''Unbalanced braces'')) \<and>
                (unclosed 0 (drop i s) = 0 \<longrightarrow> (\<exists>vals. expand (drop i s) = Inr vals))"
        using "1.IH" [OF Some sg [symmetric] _ refl refl refl refl] True by simp
      have u: "unclosed 0 s = unclosed 0 (drop i s)" using u1 u2 True by simp
      show ?thesis
      proof (cases "unclosed 0 (drop i s) = 0")
        case True
        with IH obtain vals where "expand (drop i s) = Inr vals" by auto
        then show ?thesis using ex u True by (simp add: expandedLoop_Inr)
      next
        case False
        with IH have "expand (drop i s) = Inl (Error ''Unbalanced braces'')" by simp
        then show ?thesis using ex u False
          by (simp add: expandedLoop_Inl splitCommaSafe_not_Nil)
      qed
    qed
  qed
qed

lemma yieldLoop_set: "set (yieldLoop vals seen) = set vals - seen"
  by (induction vals arbitrary: seen) auto

lemma yieldLoop_distinct: "distinct (yieldLoop vals seen)"
  by (induction vals arbitrary: seen) (auto simp: yieldLoop_set)

lemma yieldLoop_first_occurrences:
  "yieldLoop vals seen =
     map ((!) vals) (filter (\<lambda>i. vals ! i \<notin> seen \<union> set (take i vals)) [0..<length vals])"
proof (induction vals arbitrary: seen)
  case Nil
  show ?case by simp
next
  case (Cons v vs)
  have upt: "[0..<length (v # vs)] = 0 # map Suc [0..<length vs]"
    by (simp add: upt_conv_Cons map_Suc_upt del: upt_Suc)
  have rest: "map ((!) (v # vs))
        (filter (\<lambda>i. (v # vs) ! i \<notin> seen \<union> set (take i (v # vs))) (map Suc [0..<length vs])) =
      map ((!) vs) (filter (\<lambda>i. vs ! i \<notin> insert v seen \<union> set (take i vs)) [0..<length vs])"
    by (simp add: filter_map comp_def conj_commute conj_left_commute)
  show ?case
  proof (cases "v \<in> seen")
    case True
    then have "insert v seen = seen" by auto
    with True show ?thesis
      unfolding upt using rest Cons.IH [of seen] by simp
  next
    case False
    then show ?thesis
      unfolding upt using rest Cons.IH [of "insert v seen"] by simp
  qed
qed

lemma yieldLoopHeap_eq:
  "seen < length h \<Longrightarrow>
     yieldLoopHeap seen vals h = (yieldLoop vals (h ! seen), h[seen := h ! seen \<union> set vals])"
proof (induction vals arbitrary: h)
  case Nil
  show ?case by simp
next
  case (Cons v vs)
  show ?case
  proof (cases "v \<in> h ! seen")
    case True
    then have "h ! seen \<union> set (v # vs) = h ! seen \<union> set vs" by auto
    with True Cons show ?thesis by (simp add: setHas_def)
  next
    case False
    let ?h = "setAdd h seen v"
    from Cons.prems have len: "seen < length ?h" and at: "?h ! seen = insert v (h ! seen)"
      by (simp_all add: setAdd_def)
    have "?h[seen := ?h ! seen \<union> set vs] = h[seen := h ! seen \<union> set (v # vs)]"
      using Cons.prems by (simp add: setAdd_def)
    with False Cons.IH [OF len] at show ?thesis by (simp add: setHas_def)
  qed
qed

lemma expandBracesHeap_eq:
  "expandBracesHeap str h =
     (expandBraces str, h @ [case expand str of Inl e \<Rightarrow> {} | Inr vals \<Rightarrow> set vals])"
  by (cases "expand str")
     (simp_all add: expandBracesHeap_def expandBraces_def newSet_def yieldLoopHeap_eq)

section \<open>Brace expansion: the properties\<close>

text \<open>
  C1. On the docstring's own example \<open>thumbnail.{png,jp{e,}g}\<close> the code does not expand the
  group nested inside the second alternative: \<open>expand\<close> recurses on the suffix only, never
  on a variant, so it yields \<open>thumbnail.png\<close> and the unexpanded \<open>thumbnail.jp{e,}g\<close>
  where the documentation promises \<open>thumbnail.png\<close>, \<open>thumbnail.jpeg\<close>, \<open>thumbnail.jpg\<close>.
\<close>

theorem expandBraces_nested_group_unexpanded:
  "expandBraces ''thumbnail.{png,jp{e,}g}'' = Inr [''thumbnail.png'', ''thumbnail.jp{e,}g'']"
  by code_simp

text \<open>
  C2, as the code has it. \<open>expandBraces\<close> throws \<open>Error('Unbalanced braces')\<close> exactly when
  some opening brace is left unclosed, and succeeds otherwise; a closing brace with no
  opener is plain text. So \<open>{a,b\<close> throws, and \<open>a,b}\<close> yields itself.
\<close>

theorem expandBraces_throws_iff_unclosed:
  "(expandBraces s = Inl (Error ''Unbalanced braces'') \<longleftrightarrow> 0 < unclosed 0 s) \<and>
   ((\<exists>vals. expandBraces s = Inr vals) \<longleftrightarrow> unclosed 0 s = 0) \<and>
   expandBraces ''{a,b'' = Inl (Error ''Unbalanced braces'') \<and>
   expandBraces ''a,b}'' = Inr [''a,b}'']"
proof -
  have general:
    "(expandBraces t = Inl (Error ''Unbalanced braces'') \<longleftrightarrow> 0 < unclosed 0 t) \<and>
     ((\<exists>vals. expandBraces t = Inr vals) \<longleftrightarrow> unclosed 0 t = 0)" for t
    using expand_unclosed [of t]
    by (cases "unclosed 0 t = 0") (auto simp: expandBraces_def)
  have "0 < unclosed 0 ''{a,b''" by simp
  then have open_only: "expandBraces ''{a,b'' = Inl (Error ''Unbalanced braces'')"
    using general [of "''{a,b''"] by blast
  have close_only: "expandBraces ''a,b}'' = Inr [''a,b}'']"
    by (simp add: expandBraces_def expand_no_brace)
  show ?thesis using general [of s] open_only close_only by blast
qed

theorem expandBraces_throws_iff_unclosed_witness:
  "0 < unclosed 0 ''{a}{b'' \<and> expandBraces ''{a}{b'' = Inl (Error ''Unbalanced braces'') \<and>
   unclosed 0 ''}{a}'' = 0 \<and> (\<exists>vals. expandBraces ''}{a}'' = Inr vals)"
proof -
  have 1: "0 < unclosed 0 ''{a}{b''" by simp
  have 2: "unclosed 0 ''}{a}'' = 0" by simp
  show ?thesis
    using 1 2 expandBraces_throws_iff_unclosed [of "''{a}{b''"]
      expandBraces_throws_iff_unclosed [of "''}{a}''"]
    by blast
qed

text \<open>
  C2 as stated fails: on \<open>a,b}\<close>, a closing brace with no opener, nothing is thrown.
\<close>

theorem expandBraces_unmatched_close_counterexample:
  "expandBraces ''a,b}'' \<noteq> Inl (Error ''Unbalanced braces'') \<and>
   (\<exists>vals. expandBraces ''a,b}'' = Inr vals)"
  by (simp add: expandBraces_def expand_no_brace)

text \<open>
  C3. \<open>~/{Downloads,Pictures}/*.{jpg,gif,png}\<close> yields the six combinations, each once, in
  the order Downloads-jpg, Downloads-gif, Downloads-png, Pictures-jpg, Pictures-gif,
  Pictures-png.
\<close>

theorem expandBraces_downloads_pictures:
  "expandBraces ''~/{Downloads,Pictures}/*.{jpg,gif,png}'' =
     Inr [''~/Downloads/*.jpg'', ''~/Downloads/*.gif'', ''~/Downloads/*.png'',
          ''~/Pictures/*.jpg'', ''~/Pictures/*.gif'', ''~/Pictures/*.png'']"
  by code_simp

text \<open>
  C4. When the raw expansion \<open>expand(str)\<close> returns \<open>raw\<close>, the yielded sequence has no
  string twice, holds exactly the strings of \<open>raw\<close>, and is \<open>raw\<close> restricted to the
  positions where a string occurs for the first time, in the order of \<open>raw\<close>.
\<close>

theorem expandBraces_first_occurrences:
  assumes "expand str = Inr raw"
  shows "\<exists>out. expandBraces str = Inr out \<and> distinct out \<and> set out = set raw \<and>
           out = map ((!) raw) (filter (\<lambda>i. raw ! i \<notin> set (take i raw)) [0..<length raw])"
proof (intro exI conjI)
  show "expandBraces str = Inr (yieldLoop raw {})"
    using assms by (simp add: expandBraces_def)
  show "distinct (yieldLoop raw {})" by (rule yieldLoop_distinct)
  show "set (yieldLoop raw {}) = set raw" by (simp add: yieldLoop_set)
  show "yieldLoop raw {} =
      map ((!) raw) (filter (\<lambda>i. raw ! i \<notin> set (take i raw)) [0..<length raw])"
    using yieldLoop_first_occurrences [of raw "{}"] by simp
qed

theorem expandBraces_first_occurrences_witness:
  "expand ''{a,b,a}c'' = Inr [''ac'', ''bc'', ''ac''] \<and>
   expandBraces ''{a,b,a}c'' = Inr [''ac'', ''bc'']"
proof -
  have raw: "expand ''{a,b,a}c'' = Inr [''ac'', ''bc'', ''ac'']" by code_simp
  have "[0..<3] = [0, 1, 2]" by (simp add: upt_rec)
  then show ?thesis
    using raw expandBraces_first_occurrences [OF raw] by (auto simp: numeral_3_eq_3)
qed

text \<open>
  C5. \<open>splitCommaSafe\<close> cuts at the commas of depth 0 and nowhere else: putting the commas
  back between the alternatives gives the inner string again, the text before each cut
  ends at depth 0, and no alternative has a comma at depth 0 (every comma it holds is
  inside a deeper brace pair or below depth 0).
\<close>

theorem splitCommaSafe_cuts_at_depth_0:
  "joinComma (splitCommaSafe inner) = inner \<and>
   (\<forall>k. 0 < k \<and> k < length (splitCommaSafe inner) \<longrightarrow>
        levelAfter 0 (joinComma (take k (splitCommaSafe inner))) = 0) \<and>
   (\<forall>a \<in> set (splitCommaSafe inner). \<not> hasTopComma 0 a)"
proof (intro conjI allI impI ballI)
  show "joinComma (splitCommaSafe inner) = inner"
    by (simp add: splitCommaSafe_def splitLoop_join)
  show "levelAfter 0 (joinComma (take k (splitCommaSafe inner))) = 0"
    if "0 < k \<and> k < length (splitCommaSafe inner)" for k
    unfolding splitCommaSafe_def
    by (rule splitLoop_cuts) (use that in \<open>simp_all add: splitCommaSafe_def\<close>)
  show "\<not> hasTopComma 0 a" if "a \<in> set (splitCommaSafe inner)" for a
    by (rule splitLoop_alternatives [of 0 "[]" "[]" a inner])
       (use that in \<open>simp_all add: splitCommaSafe_def\<close>)
qed

theorem splitCommaSafe_cuts_at_depth_0_witness:
  "splitCommaSafe ''png,jp{e,}g'' = [''png'', ''jp{e,}g''] \<and>
   joinComma [''png'', ''jp{e,}g''] = ''png,jp{e,}g'' \<and>
   levelAfter 0 (joinComma (take 1 [''png'', ''jp{e,}g''])) = 0 \<and>
   \<not> hasTopComma 0 ''jp{e,}g''"
proof -
  have s: "splitCommaSafe ''png,jp{e,}g'' = [''png'', ''jp{e,}g'']"
    by (simp add: splitCommaSafe_def)
  from splitCommaSafe_cuts_at_depth_0 [of "''png,jp{e,}g''"]
  have "joinComma [''png'', ''jp{e,}g''] = ''png,jp{e,}g''"
    and "\<forall>k. 0 < k \<and> k < 2 \<longrightarrow> levelAfter 0 (joinComma (take k [''png'', ''jp{e,}g''])) = 0"
    and "\<forall>a \<in> set [''png'', ''jp{e,}g'']. \<not> hasTopComma 0 a"
    unfolding s by simp_all
  then show ?thesis using s by simp
qed

text \<open>
  C6. A string with no opening brace (the empty string and strings with closing braces
  included) expands to itself alone, without an exception.
\<close>

theorem expandBraces_no_open_brace:
  "CHR ''{'' \<notin> set s \<Longrightarrow> expandBraces s = Inr [s]"
  by (simp add: expandBraces_def expand_no_brace)

theorem expandBraces_no_open_brace_witness:
  "CHR ''{'' \<notin> set ''nothing} to do'' \<and> expandBraces ''nothing} to do'' = Inr [''nothing} to do''] \<and>
   CHR ''{'' \<notin> set [] \<and> expandBraces [] = Inr [[]]"
  using expandBraces_no_open_brace [of "''nothing} to do''"] expandBraces_no_open_brace [of "[]"]
  by simp

text \<open>
  C8. Content with no comma at depth 0, and so any content with no comma at all, is one
  alternative, the content itself; \<open>{abc}\<close> yields \<open>abc\<close> alone.
\<close>

theorem splitCommaSafe_single_alternative:
  "(\<not> hasTopComma 0 inner \<longrightarrow> splitCommaSafe inner = [inner]) \<and>
   (CHR '','' \<notin> set inner \<longrightarrow> splitCommaSafe inner = [inner]) \<and>
   expandBraces ''{abc}'' = Inr [''abc'']"
proof (intro conjI impI)
  show "splitCommaSafe inner = [inner]" if "\<not> hasTopComma 0 inner"
    using that by (simp add: splitCommaSafe_def splitLoop_no_top_comma)
  show "splitCommaSafe inner = [inner]" if "CHR '','' \<notin> set inner"
    using that by (simp add: splitCommaSafe_def splitLoop_no_top_comma hasTopComma_comma_free)
  show "expandBraces ''{abc}'' = Inr [''abc'']" by code_simp
qed

theorem splitCommaSafe_single_alternative_witness:
  "\<not> hasTopComma 0 ''a{b,c}d'' \<and> splitCommaSafe ''a{b,c}d'' = [''a{b,c}d''] \<and>
   CHR '','' \<notin> set ''abc'' \<and> splitCommaSafe ''abc'' = [''abc'']"
proof -
  have 1: "\<not> hasTopComma 0 ''a{b,c}d''" by simp
  have 2: "CHR '','' \<notin> set ''abc''" by simp
  show ?thesis
    using 1 2 splitCommaSafe_single_alternative [of "''a{b,c}d''"]
      splitCommaSafe_single_alternative [of "''abc''"]
    by blast
qed

text \<open>
  C7. Whatever \<open>Set\<close> objects earlier calls have left on the heap, a call of
  \<open>expandBraces(str)\<close> yields the sequence that is a function of \<open>str\<close> alone
  (\<open>expandBraces str\<close>), leaves every earlier object as it was, and a second call on the
  same string, run in the heap the first one left, yields the same sequence again.
\<close>

theorem expandBraces_deterministic_stateless:
  "fst (expandBracesHeap str h) = expandBraces str \<and>
   take (length h) (snd (expandBracesHeap str h)) = h \<and>
   fst (expandBracesHeap str (snd (expandBracesHeap str h))) = fst (expandBracesHeap str h) \<and>
   fst (expandBracesHeap str h') = fst (expandBracesHeap str h)"
  by (simp add: expandBracesHeap_eq)

section \<open>The zig-zag matrix: \<open>getZigZagMatrix\<close> of 10-katas-1-tasks.js\<close>

text \<open>
  A JavaScript array is a list of slots, \<open>None\<close> being a hole. \<open>n\<close>, the indices and the
  entries are non-negative integers: \<open>i\<close> and \<open>j\<close> are decremented only when positive.
\<close>

type_synonym matrix = "nat option list list"

text \<open>
  \<open>row[j] = v\<close>: inside the row the slot is overwritten; beyond its end JavaScript
  extends the row, leaving holes.
\<close>

definition setSlot :: "nat option list \<Rightarrow> nat \<Rightarrow> nat \<Rightarrow> nat option list" where
  "setSlot row j v =
     (if j < length row then row[j := Some v]
      else row @ replicate (j - length row) None @ [Some v])"

text \<open>
  \<open>result[i][j] = num\<close>: with \<open>i\<close> beyond the rows, \<open>result[i]\<close> is \<open>undefined\<close> and the
  assignment throws a \<open>TypeError\<close>.
\<close>

definition setCell :: "matrix \<Rightarrow> nat \<Rightarrow> nat \<Rightarrow> nat \<Rightarrow> error + matrix" where
  "setCell result i j num =
     (if i < length result then Inr (result[i := setSlot (result ! i) j num])
      else Inl TypeError)"

text \<open>The \<open>if\<close>/\<open>else\<close> of the loop body that moves \<open>(i, j)\<close>.\<close>

definition zigzagStep :: "nat \<Rightarrow> nat \<times> nat \<Rightarrow> nat \<times> nat" where
  "zigzagStep n p =
     (case p of
        (i, j) \<Rightarrow>
          if (i + j) mod 2 = 0 then
            (case (if j + 1 < n then (i, j + 1) else (i + 2, j)) of
               (i1, j1) \<Rightarrow> (if i1 > 0 then i1 - 1 else i1, j1))
          else
            (case (if i + 1 < n then (i + 1, j) else (i, j + 2)) of
               (i1, j1) \<Rightarrow> (i1, if j1 > 0 then j1 - 1 else j1)))"

text \<open>The \<open>for (let num = 0; num < n * n; num++)\<close> loop.\<close>

function zigzagLoop :: "nat \<Rightarrow> nat \<Rightarrow> matrix \<Rightarrow> nat \<times> nat \<Rightarrow> error + matrix" where
  "zigzagLoop n num result p =
     (if num < n * n then
        (case setCell result (fst p) (snd p) num of
           Inl e \<Rightarrow> Inl e
         | Inr result' \<Rightarrow> zigzagLoop n (num + 1) result' (zigzagStep n p))
      else Inr result)"
  by pat_completeness auto
termination
  by (relation "measure (\<lambda>(n, num, result, p). n * n - num)") auto

declare zigzagLoop.simps [simp del]

text \<open>
  \<open>Array.from({ length: n }, () => Array(n).fill(0))\<close> makes \<open>n\<close> separate rows of \<open>n\<close>
  zeros, so a write to one row leaves the others alone.
\<close>

definition getZigZagMatrix :: "nat \<Rightarrow> error + matrix" where
  "getZigZagMatrix n = zigzagLoop n 0 (replicate n (replicate n (Some 0))) (0, 0)"

subsection \<open>The order in which the path visits the cells\<close>

text \<open>A cell of the \<open>n\<close> by \<open>n\<close> matrix.\<close>

definition inRange :: "nat \<Rightarrow> nat \<times> nat \<Rightarrow> bool" where
  "inRange n c = (fst c < n \<and> snd c < n)"

text \<open>
  \<open>before c p\<close>: \<open>c\<close> lies on an earlier anti-diagonal than \<open>p\<close>, or on the same one and
  earlier in its direction of travel (by column on an even diagonal, by row on an odd one).
\<close>

definition before :: "nat \<times> nat \<Rightarrow> nat \<times> nat \<Rightarrow> bool" where
  "before c p =
     (fst c + snd c < fst p + snd p \<or>
      (fst c + snd c = fst p + snd p \<and>
       (if (fst p + snd p) mod 2 = 0 then snd c < snd p else fst c < fst p)))"

text \<open>The slot of the matrix at a cell, and the matrix being \<open>n\<close> rows of \<open>n\<close> slots.\<close>

definition cellAt :: "matrix \<Rightarrow> nat \<times> nat \<Rightarrow> nat option" where
  "cellAt m c = m ! fst c ! snd c"

definition square :: "nat \<Rightarrow> matrix \<Rightarrow> bool" where
  "square n m = (length m = n \<and> (\<forall>row \<in> set m. length row = n))"

text \<open>
  The loop invariant at the head of iteration \<open>num\<close>, with the matrix \<open>m\<close>, the position
  \<open>p\<close> and the list \<open>ps\<close> of the cells written so far: the matrix is square, \<open>p\<close> is a
  cell or the position just past the last cell, the cells written are exactly those
  before \<open>p\<close>, each once, and the \<open>k\<close>-th of them holds \<open>k\<close>.
\<close>

definition pathInv :: "nat \<Rightarrow> nat \<Rightarrow> matrix \<Rightarrow> nat \<times> nat \<Rightarrow> (nat \<times> nat) list \<Rightarrow> bool" where
  "pathInv n num m p ps =
     (square n m \<and> (inRange n p \<or> p = (n, n - 1)) \<and>
      length ps = num \<and> distinct ps \<and>
      set ps = {c. inRange n c \<and> before c p} \<and>
      (\<forall>k < num. cellAt m (ps ! k) = Some k))"

subsection \<open>One step of the path\<close>

lemma zigzagStep_even:
  assumes "(i + j) mod 2 = 0"
  shows "zigzagStep n (i, j) =
           (if j + 1 < n then (if i > 0 then (i - 1, j + 1) else (0, j + 1)) else (i + 1, j))"
  using assms by (simp add: zigzagStep_def)

lemma zigzagStep_odd:
  assumes "(i + j) mod 2 \<noteq> 0"
  shows "zigzagStep n (i, j) =
           (if i + 1 < n then (if j > 0 then (i + 1, j - 1) else (i + 1, 0)) else (i, j + 1))"
  using assms by (simp add: zigzagStep_def)

lemma before_even: "(i + j) mod 2 = 0 \<Longrightarrow>
  before (a, b) (i, j) = (a + b < i + j \<or> (a + b = i + j \<and> b < j))"
  by (simp add: before_def)

lemma before_odd: "(i + j) mod 2 \<noteq> 0 \<Longrightarrow>
  before (a, b) (i, j) = (a + b < i + j \<or> (a + b = i + j \<and> a < i))"
  by (simp add: before_def)

lemma step_before:
  assumes "inRange n (i, j)" and "inRange n (a, b)"
  shows "before (a, b) (zigzagStep n (i, j)) \<longleftrightarrow> before (a, b) (i, j) \<or> (a, b) = (i, j)"
proof -
  from assms have r: "i < n" "j < n" "a < n" "b < n" by (simp_all add: inRange_def)
  show ?thesis
  proof (cases "(i + j) mod 2 = 0")
    case True
    note ev = True
    show ?thesis
    proof (cases "j + 1 < n")
      case True
      show ?thesis
      proof (cases "i > 0")
        case True
        then have same: "((i - 1) + (j + 1)) mod 2 = 0" using ev by simp
        have step: "zigzagStep n (i, j) = (i - 1, j + 1)"
          using ev \<open>j + 1 < n\<close> True by (simp add: zigzagStep_even)
        have b1: "before (a, b) (i - 1, j + 1) =
            (a + b < (i - 1) + (j + 1) \<or> (a + b = (i - 1) + (j + 1) \<and> b < j + 1))"
          by (rule before_even [OF same])
        have b2: "before (a, b) (i, j) =
            (a + b < i + j \<or> (a + b = i + j \<and> b < j))"
          by (rule before_even [OF ev])
        show ?thesis
          unfolding step b1 b2 prod.inject using True r by arith
      next
        case False
        then have nxt: "(0 + (j + 1)) mod 2 \<noteq> 0" using ev by simp presburger
        have step: "zigzagStep n (i, j) = (0, j + 1)"
          using ev \<open>j + 1 < n\<close> False by (simp add: zigzagStep_even)
        have b1: "before (a, b) (0, j + 1) =
            (a + b < (0) + (j + 1) \<or> (a + b = (0) + (j + 1) \<and> a < 0))"
          by (rule before_odd [OF nxt])
        have b2: "before (a, b) (i, j) =
            (a + b < i + j \<or> (a + b = i + j \<and> b < j))"
          by (rule before_even [OF ev])
        show ?thesis
          unfolding step b1 b2 prod.inject using False r by arith
      qed
    next
      case False
      have nxt: "((i + 1) + j) mod 2 \<noteq> 0" using ev by simp presburger
      have step: "zigzagStep n (i, j) = (i + 1, j)"
        using ev False by (simp add: zigzagStep_even)
      have b1: "before (a, b) (i + 1, j) =
          (a + b < (i + 1) + (j) \<or> (a + b = (i + 1) + (j) \<and> a < i + 1))"
        by (rule before_odd [OF nxt])
      have b2: "before (a, b) (i, j) =
          (a + b < i + j \<or> (a + b = i + j \<and> b < j))"
        by (rule before_even [OF ev])
      show ?thesis
        unfolding step b1 b2 prod.inject using False r by arith
    qed
  next
    case False
    note od = False
    show ?thesis
    proof (cases "i + 1 < n")
      case True
      show ?thesis
      proof (cases "j > 0")
        case True
        then have same: "((i + 1) + (j - 1)) mod 2 \<noteq> 0" using od by simp
        have step: "zigzagStep n (i, j) = (i + 1, j - 1)"
          using od \<open>i + 1 < n\<close> True by (simp add: zigzagStep_odd)
        have b1: "before (a, b) (i + 1, j - 1) =
            (a + b < (i + 1) + (j - 1) \<or> (a + b = (i + 1) + (j - 1) \<and> a < i + 1))"
          by (rule before_odd [OF same])
        have b2: "before (a, b) (i, j) =
            (a + b < i + j \<or> (a + b = i + j \<and> a < i))"
          by (rule before_odd [OF od])
        show ?thesis
          unfolding step b1 b2 prod.inject using True r by arith
      next
        case False
        then have nxt: "((i + 1) + 0) mod 2 = 0" using od by simp presburger
        have step: "zigzagStep n (i, j) = (i + 1, 0)"
          using od \<open>i + 1 < n\<close> False by (simp add: zigzagStep_odd)
        have b1: "before (a, b) (i + 1, 0) =
            (a + b < (i + 1) + (0) \<or> (a + b = (i + 1) + (0) \<and> b < 0))"
          by (rule before_even [OF nxt])
        have b2: "before (a, b) (i, j) =
            (a + b < i + j \<or> (a + b = i + j \<and> a < i))"
          by (rule before_odd [OF od])
        show ?thesis
          unfolding step b1 b2 prod.inject using False r by arith
      qed
    next
      case False
      have nxt: "(i + (j + 1)) mod 2 = 0" using od by simp presburger
      have step: "zigzagStep n (i, j) = (i, j + 1)"
        using od False by (simp add: zigzagStep_odd)
      have b1: "before (a, b) (i, j + 1) =
          (a + b < (i) + (j + 1) \<or> (a + b = (i) + (j + 1) \<and> b < j + 1))"
        by (rule before_even [OF nxt])
      have b2: "before (a, b) (i, j) =
          (a + b < i + j \<or> (a + b = i + j \<and> a < i))"
        by (rule before_odd [OF od])
      show ?thesis
        unfolding step b1 b2 prod.inject using False r by arith
    qed
  qed
qed

lemma step_range:
  assumes "inRange n (i, j)"
  shows "inRange n (zigzagStep n (i, j)) \<or> zigzagStep n (i, j) = (n, n - 1)"
proof (cases "(i + j) mod 2 = 0")
  case True
  then show ?thesis using assms by (auto simp: zigzagStep_even inRange_def)
next
  case False
  have "j + 1 < n" if "\<not> i + 1 < n"
  proof (rule ccontr)
    assume "\<not> j + 1 < n"
    with that assms have "i + 1 = n" "j + 1 = n" by (simp_all add: inRange_def)
    then have "(i + j) mod 2 = 0" by presburger
    with False show False by simp
  qed
  with False show ?thesis using assms by (auto simp: zigzagStep_odd inRange_def)
qed

subsection \<open>The loop invariant\<close>

lemma cells_product: "{c. inRange n c} = {..<n} \<times> {..<n}"
  by (auto simp: inRange_def)

lemma card_cells: "card {c. inRange n c} = n * n"
  by (simp add: cells_product)

lemma finite_cells: "finite {c. inRange n c}"
  by (simp add: cells_product)

lemma before_irrefl: "\<not> before p p"
  by (simp add: before_def)

lemma before_past_end: "inRange n c \<Longrightarrow> before c (n, n - 1)"
  by (auto simp: inRange_def before_def)

lemma pathInv_init:
  "0 < n \<Longrightarrow> pathInv n 0 (replicate n (replicate n (Some 0))) (0, 0) []"
  by (auto simp: pathInv_def square_def inRange_def before_def)

lemma pathInv_in_range:
  assumes "pathInv n num m p ps" and "num < n * n"
  shows "inRange n p"
proof (rule ccontr)
  assume "\<not> inRange n p"
  with assms(1) have p: "p = (n, n - 1)" by (simp add: pathInv_def)
  from assms(1) have "set ps = {c. inRange n c \<and> before c p}"
    and "distinct ps" and "length ps = num"
    by (simp_all add: pathInv_def)
  then have "set ps = {c. inRange n c}" using p before_past_end by auto
  then have "card (set ps) = n * n" by (simp add: card_cells)
  with \<open>distinct ps\<close> \<open>length ps = num\<close> have "num = n * n" by (simp add: distinct_card)
  with assms(2) show False by simp
qed

lemma cellAt_update_other:
  "c \<noteq> (i, j) \<Longrightarrow> cellAt (m[i := (m ! i)[j := v]]) c = cellAt m c"
  by (cases c; cases "fst c = i"; cases "i < length m") (auto simp: cellAt_def list_update_beyond)

lemma cellAt_update_same:
  "i < length m \<Longrightarrow> j < length (m ! i) \<Longrightarrow> cellAt (m[i := (m ! i)[j := v]]) (i, j) = v"
  by (simp add: cellAt_def)

lemma square_update:
  assumes "square n m" and "length r = n"
  shows "square n (m[i := r])"
proof -
  have "set (m[i := r]) \<subseteq> insert r (set m)" by (rule set_update_subset_insert)
  with assms show ?thesis by (auto simp: square_def)
qed

lemma pathInv_step:
  assumes inv: "pathInv n num m p ps" and lt: "num < n * n"
  shows "\<exists>m'. setCell m (fst p) (snd p) num = Inr m' \<and>
           pathInv n (num + 1) m' (zigzagStep n p) (ps @ [p])"
proof -
  obtain i j where p: "p = (i, j)" by (cases p)
  from inv lt have "inRange n p" by (rule pathInv_in_range)
  with p have i: "i < n" and j: "j < n" by (simp_all add: inRange_def)
  from inv have sq: "square n m" and len: "length ps = num" and dist: "distinct ps"
    and vis: "set ps = {c. inRange n c \<and> before c p}"
    and vals: "\<And>k. k < num \<Longrightarrow> cellAt m (ps ! k) = Some k"
    by (simp_all add: pathInv_def)
  from sq i have li: "i < length m" and lj: "j < length (m ! i)"
    using j by (auto simp: square_def)
  let ?m = "m[i := (m ! i)[j := Some num]]"
  have set: "setCell m (fst p) (snd p) num = Inr ?m"
    using p li lj by (simp add: setCell_def setSlot_def)
  have notin: "p \<notin> set ps" using vis before_irrefl by auto
  have sq': "square n ?m"
    using sq lj j i by (intro square_update) (auto simp: square_def)
  have rng: "inRange n (zigzagStep n p) \<or> zigzagStep n p = (n, n - 1)"
    using \<open>inRange n p\<close> p step_range by simp
  have vis': "set (ps @ [p]) = {c. inRange n c \<and> before c (zigzagStep n p)}"
  proof -
    have "before c (zigzagStep n p) \<longleftrightarrow> before c p \<or> c = p" if "inRange n c" for c
      using step_before [of n i j "fst c" "snd c"] that \<open>inRange n p\<close> p by simp
    then show ?thesis using vis \<open>inRange n p\<close> by auto
  qed
  have vals': "cellAt ?m ((ps @ [p]) ! k) = Some k" if "k < num + 1" for k
  proof (cases "k < num")
    case True
    then have "ps ! k \<in> set ps" using len by simp
    with notin have "ps ! k \<noteq> (i, j)" using p by auto
    then have "cellAt ?m (ps ! k) = cellAt m (ps ! k)" by (rule cellAt_update_other)
    then show ?thesis using True len vals by (simp add: nth_append)
  next
    case False
    with that have "k = num" by simp
    then show ?thesis using len p li lj by (simp add: nth_append cellAt_update_same)
  qed
  have "pathInv n (num + 1) ?m (zigzagStep n p) (ps @ [p])"
    unfolding pathInv_def using sq' rng len dist notin vis' vals' by simp
  with set show ?thesis by blast
qed

lemma zigzagLoop_pathInv:
  assumes "pathInv n num m p ps" and "num \<le> n * n"
  shows "\<exists>M p' ps'. zigzagLoop n num m p = Inr M \<and> pathInv n (n * n) M p' ps'"
  using assms
proof (induction "n * n - num" arbitrary: num m p ps)
  case 0
  then have "num = n * n" by simp
  then have "zigzagLoop n num m p = Inr m" by (subst zigzagLoop.simps) simp
  moreover from \<open>num = n * n\<close> "0.prems"(1) have "pathInv n (n * n) m p ps" by simp
  ultimately show ?case by blast
next
  case (Suc d)
  then have lt: "num < n * n" by simp
  from pathInv_step [OF Suc.prems(1) lt] obtain m' where
    set: "setCell m (fst p) (snd p) num = Inr m'" and
    inv': "pathInv n (num + 1) m' (zigzagStep n p) (ps @ [p])" by blast
  have "d = n * n - (num + 1)" using Suc.hyps(2) by simp
  from Suc.hyps(1) [OF this inv'] lt obtain M p' ps' where
    "zigzagLoop n (num + 1) m' (zigzagStep n p) = Inr M" "pathInv n (n * n) M p' ps'" by force
  moreover have "zigzagLoop n num m p = zigzagLoop n (num + 1) m' (zigzagStep n p)"
    using lt set by (subst zigzagLoop.simps) simp
  ultimately show ?case by metis
qed

lemma concat_square:
  assumes "square n m"
  shows "concat m = map (cellAt m) (List.product [0..<n] [0..<n])"
proof -
  from assms have len: "length m = n" and rows: "\<And>a. a < n \<Longrightarrow> length (m ! a) = n"
    by (auto simp: square_def)
  have "m = map (\<lambda>a. m ! a) [0..<n]" using len map_nth [of m] by simp
  also have "\<dots> = map (\<lambda>a. map (\<lambda>b. cellAt m (a, b)) [0..<n]) [0..<n]"
  proof (rule map_cong [OF refl])
    fix a assume "a \<in> set [0..<n]"
    then have "length (m ! a) = n" using rows by simp
    then have "m ! a = map (\<lambda>b. m ! a ! b) [0..<n]" by (metis map_nth)
    then show "m ! a = map (\<lambda>b. cellAt m (a, b)) [0..<n]" by (simp add: cellAt_def)
  qed
  finally have "concat m = concat (map (\<lambda>a. map (\<lambda>b. cellAt m (a, b)) [0..<n]) [0..<n])"
    by simp
  also have "\<dots> = map (cellAt m) (List.product [0..<n] [0..<n])"
    by (simp add: product_concat_map map_concat comp_def)
  finally show ?thesis .
qed

lemma pathInv_final:
  assumes "pathInv n (n * n) m p ps"
  shows "mset (concat m) = mset (map Some [0..<n * n])"
proof -
  from assms have sq: "square n m" and len: "length ps = n * n" and dist: "distinct ps"
    and sub: "set ps \<subseteq> {c. inRange n c}"
    and vals: "\<And>k. k < n * n \<Longrightarrow> cellAt m (ps ! k) = Some k"
    by (auto simp: pathInv_def)
  have "card (set ps) = card {c. inRange n c}"
    using dist len by (simp add: distinct_card card_cells)
  with sub have all: "set ps = {c. inRange n c}"
    by (intro card_subset_eq finite_cells)
  have "set (List.product [0..<n] [0..<n]) = {c. inRange n c}"
    by (auto simp: inRange_def)
  with all dist have "mset ps = mset (List.product [0..<n] [0..<n])"
    by (intro iffD1 [OF set_eq_iff_mset_eq_distinct]) (simp_all add: distinct_product)
  then have "mset (map (cellAt m) ps) = mset (map (cellAt m) (List.product [0..<n] [0..<n]))"
    by (metis mset_map)
  moreover have "map (cellAt m) ps = map Some [0..<n * n]"
    using len vals by (intro nth_equalityI) simp_all
  ultimately show ?thesis using concat_square [OF sq] by simp
qed

section \<open>The zig-zag matrix: the property\<close>

text \<open>
  C9. For every \<open>n\<close> of at least 1, \<open>getZigZagMatrix(n)\<close> returns (no exception, no row
  extended) a matrix of \<open>n\<close> rows of \<open>n\<close> entries, none of them a hole, in which every
  integer from 0 to \<open>n * n - 1\<close> occurs exactly once.
\<close>

theorem getZigZagMatrix_permutation:
  assumes "1 \<le> n"
  shows "\<exists>m. getZigZagMatrix n = Inr m \<and> length m = n \<and> (\<forall>row \<in> set m. length row = n) \<and>
           mset (concat m) = mset (map Some [0..<n * n])"
proof -
  from assms have "pathInv n 0 (replicate n (replicate n (Some 0))) (0, 0) []"
    by (intro pathInv_init) simp
  then have "\<exists>M p' ps'. zigzagLoop n 0 (replicate n (replicate n (Some 0))) (0, 0) = Inr M \<and>
      pathInv n (n * n) M p' ps'"
    by (rule zigzagLoop_pathInv) simp
  then obtain m p ps where m: "getZigZagMatrix n = Inr m" and inv: "pathInv n (n * n) m p ps"
    unfolding getZigZagMatrix_def by blast
  from inv have "square n m" by (simp add: pathInv_def)
  then have "length m = n" "\<forall>row \<in> set m. length row = n" by (simp_all add: square_def)
  with m pathInv_final [OF inv] show ?thesis by blast
qed

theorem getZigZagMatrix_permutation_witness:
  "(1::nat) \<le> 3 \<and>
   getZigZagMatrix 3 =
     Inr [[Some 0, Some 1, Some 5], [Some 2, Some 4, Some 6], [Some 3, Some 7, Some 8]] \<and>
   mset (concat [[Some 0, Some 1, Some 5], [Some 2, Some 4, Some 6], [Some 3, Some 7, Some 8]]) =
     mset (map Some [0..<3 * 3])"
proof -
  have h: "(1::nat) \<le> 3" by simp
  have v: "getZigZagMatrix 3 =
     Inr [[Some 0, Some 1, Some 5], [Some 2, Some 4, Some 6], [Some 3, Some 7, Some 8]]"
    by code_simp
  from getZigZagMatrix_permutation [OF h] obtain m where
    "getZigZagMatrix 3 = Inr m" "mset (concat m) = mset (map Some [0..<3 * 3])" by blast
  with v h show ?thesis by simp
qed

section \<open>The CSS selector builder: \<open>CssSelector\<close> of 08-objects-tasks.js\<close>

text \<open>The keys of the \<open>used\<close> object: \<open>element\<close>, \<open>id\<close> and \<open>pseudoElement\<close>.\<close>

datatype used_key = UElement | UId | UPseudoElement

record CssSelector =
  result :: string
  order :: nat
  used :: "used_key \<Rightarrow> bool"

definition orderMessage :: string where
  "orderMessage =
     ''Selector parts should be arranged in the following order: element, id, class, attribute, pseudo-class, pseudo-element''"

definition uniqueMessage :: string where
  "uniqueMessage =
     ''Element, id and pseudo-element should not occur more then one time inside the selector''"

text \<open>The constructor and \<open>clone\<close>.\<close>

definition newCssSelector :: CssSelector where
  "newCssSelector = \<lparr>result = [], order = 0, used = (\<lambda>key. False)\<rparr>"

definition clone :: "CssSelector \<Rightarrow> CssSelector" where
  "clone this = \<lparr>result = result this, order = order this, used = used this\<rparr>"

text \<open>
  \<open>checkOrder\<close> and \<open>checkUnique\<close> either throw, leaving the receiver \<open>this\<close> as it is, or
  assign to a field of the receiver; the receiver after the assignment is returned.
\<close>

definition checkOrder :: "nat \<Rightarrow> CssSelector \<Rightarrow> error + CssSelector" where
  "checkOrder current this =
     (if current < order this then Inl (Error orderMessage)
      else Inr (this\<lparr>order := current\<rparr>))"

definition checkUnique :: "used_key \<Rightarrow> CssSelector \<Rightarrow> error + CssSelector" where
  "checkUnique key this =
     (if used this key then Inl (Error uniqueMessage)
      else Inr (this\<lparr>used := (used this)(key := True)\<rparr>))"

text \<open>
  The six methods. The checks assign to the receiver itself before it is cloned, so a
  call changes the receiver as well as returning a new selector. A method therefore
  returns a pair: the receiver as the call leaves it (after the assignments made before
  an exception, if one is thrown), and the outcome, which is the exception or the clone
  with the new part appended to its \<open>result\<close>.
\<close>

definition element :: "string \<Rightarrow> CssSelector \<Rightarrow> CssSelector \<times> (error + CssSelector)" where
  "element val this =
     (case checkOrder 1 this of
        Inl e \<Rightarrow> (this, Inl e)
      | Inr this1 \<Rightarrow>
          (case checkUnique UElement this1 of
             Inl e \<Rightarrow> (this1, Inl e)
           | Inr this2 \<Rightarrow>
               (let copy = clone this2
                in (this2, Inr (copy\<lparr>result := result copy @ val\<rparr>)))))"

definition idSel :: "string \<Rightarrow> CssSelector \<Rightarrow> CssSelector \<times> (error + CssSelector)" where
  "idSel val this =
     (case checkOrder 2 this of
        Inl e \<Rightarrow> (this, Inl e)
      | Inr this1 \<Rightarrow>
          (case checkUnique UId this1 of
             Inl e \<Rightarrow> (this1, Inl e)
           | Inr this2 \<Rightarrow>
               (let copy = clone this2
                in (this2, Inr (copy\<lparr>result := result copy @ ''#'' @ val\<rparr>)))))"

definition classSel :: "string \<Rightarrow> CssSelector \<Rightarrow> CssSelector \<times> (error + CssSelector)" where
  "classSel val this =
     (case checkOrder 3 this of
        Inl e \<Rightarrow> (this, Inl e)
      | Inr this1 \<Rightarrow>
          (let copy = clone this1
           in (this1, Inr (copy\<lparr>result := result copy @ ''.'' @ val\<rparr>))))"

definition attr :: "string \<Rightarrow> CssSelector \<Rightarrow> CssSelector \<times> (error + CssSelector)" where
  "attr val this =
     (case checkOrder 4 this of
        Inl e \<Rightarrow> (this, Inl e)
      | Inr this1 \<Rightarrow>
          (let copy = clone this1
           in (this1, Inr (copy\<lparr>result := result copy @ ''['' @ val @ '']''\<rparr>))))"

definition pseudoClass :: "string \<Rightarrow> CssSelector \<Rightarrow> CssSelector \<times> (error + CssSelector)" where
  "pseudoClass val this =
     (case checkOrder 5 this of
        Inl e \<Rightarrow> (this, Inl e)
      | Inr this1 \<Rightarrow>
          (let copy = clone this1
           in (this1, Inr (copy\<lparr>result := result copy @ '':'' @ val\<rparr>))))"

definition pseudoElement :: "string \<Rightarrow> CssSelector \<Rightarrow> CssSelector \<times> (error + CssSelector)" where
  "pseudoElement val this =
     (case checkOrder 6 this of
        Inl e \<Rightarrow> (this, Inl e)
      | Inr this1 \<Rightarrow>
          (case checkUnique UPseudoElement this1 of
             Inl e \<Rightarrow> (this1, Inl e)
           | Inr this2 \<Rightarrow>
               (let copy = clone this2
                in (this2, Inr (copy\<lparr>result := result copy @ ''::'' @ val\<rparr>)))))"

definition stringify :: "CssSelector \<Rightarrow> string" where
  "stringify this = result this"

text \<open>
  A selector chain \<open>cssSelectorBuilder.m1(v1).m2(v2)...\<close> is the list of its method calls.
  The builder's method makes a new \<open>CssSelector\<close> and calls the method of the same name on
  it; every later call is made on the selector the call before returned, and an exception
  ends the chain. Each receiver of a chain is a temporary that nothing else refers to,
  so the chain goes on with the outcome and the changed receiver is dropped.
\<close>

datatype call =
    CallElement string
  | CallId string
  | CallClass string
  | CallAttr string
  | CallPseudoClass string
  | CallPseudoElement string

fun invoke :: "call \<Rightarrow> CssSelector \<Rightarrow> CssSelector \<times> (error + CssSelector)" where
  "invoke (CallElement val) this = element val this"
| "invoke (CallId val) this = idSel val this"
| "invoke (CallClass val) this = classSel val this"
| "invoke (CallAttr val) this = attr val this"
| "invoke (CallPseudoClass val) this = pseudoClass val this"
| "invoke (CallPseudoElement val) this = pseudoElement val this"

fun chain :: "call list \<Rightarrow> CssSelector \<Rightarrow> error + CssSelector" where
  "chain [] this = Inr this"
| "chain (c # cs) this =
     (case snd (invoke c this) of
        Inl e \<Rightarrow> Inl e
      | Inr next_sel \<Rightarrow> chain cs next_sel)"

definition builderChain :: "call list \<Rightarrow> error + CssSelector" where
  "builderChain cs = chain cs newCssSelector"

text \<open>
  The key a call passes to \<open>checkUnique\<close> (none for \<open>class\<close>, \<open>attr\<close> and \<open>pseudoClass\<close>),
  the number it passes to \<open>checkOrder\<close>, and the text it appends to \<open>result\<close>.
\<close>

fun keyOf :: "call \<Rightarrow> used_key option" where
  "keyOf (CallElement val) = Some UElement"
| "keyOf (CallId val) = Some UId"
| "keyOf (CallPseudoElement val) = Some UPseudoElement"
| "keyOf c = None"

fun rankOf :: "call \<Rightarrow> nat" where
  "rankOf (CallElement val) = 1"
| "rankOf (CallId val) = 2"
| "rankOf (CallClass val) = 3"
| "rankOf (CallAttr val) = 4"
| "rankOf (CallPseudoClass val) = 5"
| "rankOf (CallPseudoElement val) = 6"

fun partText :: "call \<Rightarrow> string" where
  "partText (CallElement val) = val"
| "partText (CallId val) = ''#'' @ val"
| "partText (CallClass val) = ''.'' @ val"
| "partText (CallAttr val) = ''['' @ val @ '']''"
| "partText (CallPseudoClass val) = '':'' @ val"
| "partText (CallPseudoElement val) = ''::'' @ val"

section \<open>The CSS selector builder: the properties\<close>

lemmas method_defs =
  element_def idSel_def classSel_def attr_def pseudoClass_def pseudoElement_def
  checkOrder_def checkUnique_def clone_def Let_def

text \<open>The outcome of one call, by cases.\<close>

lemma invoke_outcome:
  "snd (invoke c this) =
     (if rankOf c < order this then Inl (Error orderMessage)
      else if \<exists>key. keyOf c = Some key \<and> used this key then Inl (Error uniqueMessage)
      else Inr \<lparr>result = result this @ partText c, order = rankOf c,
                used = (\<lambda>key. used this key \<or> keyOf c = Some key)\<rparr>)"
  by (cases c) (auto simp: method_defs fun_eq_iff)

text \<open>
  The receiver after one call: \<open>checkOrder\<close> has assigned \<open>order\<close> unless it threw, and
  \<open>checkUnique\<close> has set the key unless one of the two threw.
\<close>

lemma invoke_receiver:
  "fst (invoke c this) =
     (if rankOf c < order this then this
      else if \<exists>key. keyOf c = Some key \<and> used this key then this\<lparr>order := rankOf c\<rparr>
      else this\<lparr>order := rankOf c, used := (\<lambda>key. used this key \<or> keyOf c = Some key)\<rparr>)"
  by (cases c) (auto simp: method_defs fun_eq_iff)

text \<open>
  Calling \<open>id\<close> twice on the same receiver: the first call has marked the receiver
  itself, so the second throws the uniqueness message.
\<close>

lemma idSel_reused_receiver:
  assumes "idSel v this = (this', Inr copy)"
  shows "snd (idSel w this') = Inl (Error uniqueMessage)"
proof -
  from assms have "order this' = 2 \<and> used this' UId"
    by (auto simp: method_defs split: if_splits)
  then show ?thesis by (simp add: method_defs)
qed

lemma invoke_Inr:
  assumes "snd (invoke c this) = Inr next_sel"
  shows "order this \<le> rankOf c" and "order next_sel = rankOf c"
    and "result next_sel = result this @ partText c"
    and "used next_sel key = (used this key \<or> keyOf c = Some key)"
  using assms by (subst (asm) invoke_outcome; auto split: if_splits)+

lemma chain_state:
  assumes "chain cs this = Inr final"
  shows "used final key = (used this key \<or> (\<exists>c \<in> set cs. keyOf c = Some key))"
    and "order final = (if cs = [] then order this else rankOf (last cs))"
    and "order this \<le> order final"
    and "\<forall>c \<in> set cs. rankOf c \<le> order final"
    and "result final = result this @ concat (map partText cs)"
  using assms
proof (induction cs arbitrary: this)
  case Nil
  {
    case 1 then show ?case by simp
  next
    case 2 then show ?case by simp
  next
    case 3 then show ?case by simp
  next
    case 4 then show ?case by simp
  next
    case 5 then show ?case by simp
  }
next
  case (Cons c cs)
  {
    case 1
    then obtain next_sel where n: "snd (invoke c this) = Inr next_sel"
      and r: "chain cs next_sel = Inr final" by (auto split: sum.splits)
    show ?case using Cons.IH(1) [OF r] invoke_Inr(4) [OF n] by auto
  next
    case 2
    then obtain next_sel where n: "snd (invoke c this) = Inr next_sel"
      and r: "chain cs next_sel = Inr final" by (auto split: sum.splits)
    show ?case using Cons.IH(2) [OF r] invoke_Inr(2) [OF n] by simp
  next
    case 3
    then obtain next_sel where n: "snd (invoke c this) = Inr next_sel"
      and r: "chain cs next_sel = Inr final" by (auto split: sum.splits)
    show ?case using Cons.IH(3) [OF r] invoke_Inr(1,2) [OF n] by simp
  next
    case 4
    then obtain next_sel where n: "snd (invoke c this) = Inr next_sel"
      and r: "chain cs next_sel = Inr final" by (auto split: sum.splits)
    show ?case using Cons.IH(3,4) [OF r] invoke_Inr(2) [OF n] by simp
  next
    case 5
    then obtain next_sel where n: "snd (invoke c this) = Inr next_sel"
      and r: "chain cs next_sel = Inr final" by (auto split: sum.splits)
    show ?case using Cons.IH(5) [OF r] invoke_Inr(3) [OF n] by simp
  }
qed

lemma messages_differ: "orderMessage \<noteq> uniqueMessage"
  by (simp add: orderMessage_def uniqueMessage_def)

lemma chain_append:
  "chain (cs @ ds) this = (case chain cs this of Inl e \<Rightarrow> Inl e | Inr mid \<Rightarrow> chain ds mid)"
  by (induction cs arbitrary: this) (simp_all split: sum.splits)

lemma chain_classes:
  "order this \<le> 3 \<Longrightarrow> \<exists>final. chain (map CallClass vs) this = Inr final \<and> order final \<le> 3"
proof (induction vs arbitrary: this)
  case Nil
  then show ?case by simp
next
  case (Cons v vs)
  let ?n = "\<lparr>result = result this @ ''.'' @ v, order = 3, used = used this\<rparr>"
  from Cons.prems have "snd (invoke (CallClass v) this) = Inr ?n"
    by (simp add: method_defs)
  moreover have "\<exists>final. chain (map CallClass vs) ?n = Inr final \<and> order final \<le> 3"
    by (rule Cons.IH) simp
  ultimately show ?case by simp
qed

lemma chain_attrs:
  "order this \<le> 4 \<Longrightarrow> \<exists>final. chain (map CallAttr ws) this = Inr final"
proof (induction ws arbitrary: this)
  case Nil
  then show ?case by simp
next
  case (Cons w ws)
  let ?n = "\<lparr>result = result this @ ''['' @ w @ '']'', order = 4, used = used this\<rparr>"
  from Cons.prems have "snd (invoke (CallAttr w) this) = Inr ?n"
    by (simp add: method_defs)
  moreover have "\<exists>final. chain (map CallAttr ws) ?n = Inr final"
    by (rule Cons.IH) simp
  ultimately show ?case by simp
qed

text \<open>
  C10, as the code has it. Let the chain \<open>cs\<close> have gone through, giving the selector
  \<open>sel\<close>, and let \<open>c'\<close> be the next call. \<open>checkOrder\<close> runs first: if the chain has a
  part of a later kind than \<open>c'\<close> (that is, \<open>order\<close> of \<open>sel\<close> is above the number of
  \<open>c'\<close>), the call throws the order message, whatever the method. Otherwise, if \<open>c'\<close> is
  an \<open>element\<close>, \<open>id\<close> or \<open>pseudoElement\<close> call and the chain already has a call of that
  method, it throws the uniqueness message. Otherwise it goes through and returns the
  selector with the new part appended. So a second \<open>element\<close>, \<open>id\<close> or \<open>pseudoElement\<close>
  always throws, with one of the two messages (which differ); \<open>class\<close>, \<open>attr\<close> and
  \<open>pseudoClass\<close> never throw the uniqueness message, throw the order message exactly
  after a part of a later kind, and any number of \<open>class\<close> calls followed by any number
  of \<open>attr\<close> calls goes through.
\<close>

theorem second_occurrence_throws:
  assumes "builderChain cs = Inr sel"
  shows "snd (invoke c' sel) =
           (if \<exists>c \<in> set cs. rankOf c' < rankOf c then Inl (Error orderMessage)
            else if \<exists>c \<in> set cs. keyOf c' \<noteq> None \<and> keyOf c = keyOf c'
            then Inl (Error uniqueMessage)
            else Inr \<lparr>result = concat (map partText (cs @ [c'])), order = rankOf c',
                      used = (\<lambda>key. \<exists>c \<in> set (cs @ [c']). keyOf c = Some key)\<rparr>) \<and>
         orderMessage \<noteq> uniqueMessage \<and>
         stringify sel = concat (map partText cs) \<and>
         (rankOf c' < order sel \<longleftrightarrow> (\<exists>c \<in> set cs. rankOf c' < rankOf c)) \<and>
         (\<forall>c \<in> set cs. \<forall>key. keyOf c = Some key \<and> keyOf c' = Some key \<longrightarrow>
            snd (invoke c' sel) =
              Inl (Error (if rankOf c' < order sel then orderMessage else uniqueMessage))) \<and>
         (keyOf c' = None \<longrightarrow> snd (invoke c' sel) \<noteq> Inl (Error uniqueMessage)) \<and>
         (keyOf c' = None \<longrightarrow>
            (snd (invoke c' sel) = Inl (Error orderMessage) \<longleftrightarrow>
               (\<exists>c \<in> set cs. rankOf c' < rankOf c))) \<and>
         (\<exists>final. builderChain (map CallClass vs @ map CallAttr ws) = Inr final)"
proof -
  from assms have ch: "chain cs newCssSelector = Inr sel" by (simp add: builderChain_def)
  have us: "used sel key = (\<exists>c \<in> set cs. keyOf c = Some key)" for key
    using chain_state(1) [OF ch, of key] by (simp add: newCssSelector_def)
  have ord: "order sel = (if cs = [] then 0 else rankOf (last cs))"
    using chain_state(2) [OF ch] by (simp add: newCssSelector_def)
  have le: "\<forall>c \<in> set cs. rankOf c \<le> order sel" by (rule chain_state(4) [OF ch])
  have res: "result sel = concat (map partText cs)"
    using chain_state(5) [OF ch] by (simp add: newCssSelector_def)
  have later: "rankOf c' < order sel \<longleftrightarrow> (\<exists>c \<in> set cs. rankOf c' < rankOf c)"
  proof
    assume l: "rankOf c' < order sel"
    with ord have "cs \<noteq> []" by auto
    then have "last cs \<in> set cs" by simp
    moreover from l ord \<open>cs \<noteq> []\<close> have "rankOf c' < rankOf (last cs)" by simp
    ultimately show "\<exists>c \<in> set cs. rankOf c' < rankOf c" by blast
  next
    assume "\<exists>c \<in> set cs. rankOf c' < rankOf c"
    with le show "rankOf c' < order sel" by force
  qed
  have twice: "(\<exists>key. keyOf c' = Some key \<and> used sel key) \<longleftrightarrow>
      (\<exists>c \<in> set cs. keyOf c' \<noteq> None \<and> keyOf c = keyOf c')"
    by (auto simp: us)
  have fn: "(\<lambda>key. used sel key \<or> keyOf c' = Some key) =
      (\<lambda>key. \<exists>c \<in> set (cs @ [c']). keyOf c = Some key)"
    by (auto simp: us fun_eq_iff)
  have main: "snd (invoke c' sel) =
      (if \<exists>c \<in> set cs. rankOf c' < rankOf c then Inl (Error orderMessage)
       else if \<exists>c \<in> set cs. keyOf c' \<noteq> None \<and> keyOf c = keyOf c'
       then Inl (Error uniqueMessage)
       else Inr \<lparr>result = concat (map partText (cs @ [c'])), order = rankOf c',
                 used = (\<lambda>key. \<exists>c \<in> set (cs @ [c']). keyOf c = Some key)\<rparr>)"
    unfolding invoke_outcome [of c' sel] later twice fn res by simp
  have again: "snd (invoke c' sel) =
      Inl (Error (if rankOf c' < order sel then orderMessage else uniqueMessage))"
    if "c \<in> set cs" "keyOf c = Some key \<and> keyOf c' = Some key" for c key
  proof -
    from that have "\<exists>c \<in> set cs. keyOf c' \<noteq> None \<and> keyOf c = keyOf c'" by auto
    then show ?thesis unfolding main later by simp
  qed
  have never: "snd (invoke c' sel) \<noteq> Inl (Error uniqueMessage)" if "keyOf c' = None"
    unfolding main using that messages_differ by simp
  have order_iff: "snd (invoke c' sel) = Inl (Error orderMessage) \<longleftrightarrow>
      (\<exists>c \<in> set cs. rankOf c' < rankOf c)" if "keyOf c' = None"
    unfolding main using that by simp
  have rep: "\<exists>final. builderChain (map CallClass vs @ map CallAttr ws) = Inr final"
  proof -
    obtain mid where m: "chain (map CallClass vs) newCssSelector = Inr mid" and o: "order mid \<le> 3"
      using chain_classes [of newCssSelector vs] by (auto simp: newCssSelector_def)
    from o obtain final where "chain (map CallAttr ws) mid = Inr final"
      using chain_attrs [of mid ws] by auto
    with m show ?thesis by (simp add: builderChain_def chain_append)
  qed
  show ?thesis
    using main messages_differ res later again never order_iff rep
    unfolding stringify_def by blast
qed

theorem second_occurrence_throws_witness:
  "builderChain [CallElement ''div'', CallId ''main''] =
     Inr \<lparr>result = ''div#main'', order = 2,
          used = (\<lambda>key. False)(UElement := True, UId := True)\<rparr> \<and>
   snd (invoke (CallId ''other'')
     \<lparr>result = ''div#main'', order = 2,
      used = (\<lambda>key. False)(UElement := True, UId := True)\<rparr>) = Inl (Error uniqueMessage) \<and>
   snd (invoke (CallElement ''p'')
     \<lparr>result = ''div#main'', order = 2,
      used = (\<lambda>key. False)(UElement := True, UId := True)\<rparr>) = Inl (Error orderMessage) \<and>
   map_sum id stringify (snd (invoke (CallClass ''c'')
     \<lparr>result = ''div#main'', order = 2,
      used = (\<lambda>key. False)(UElement := True, UId := True)\<rparr>)) = Inr ''div#main.c'' \<and>
   builderChain [CallPseudoClass ''hover''] =
     Inr \<lparr>result = '':hover'', order = 5, used = (\<lambda>key. False)\<rparr> \<and>
   snd (invoke (CallAttr ''x'') \<lparr>result = '':hover'', order = 5, used = (\<lambda>key. False)\<rparr>) =
     Inl (Error orderMessage)"
proof -
  let ?sel = "\<lparr>result = ''div#main'', order = 2,
               used = (\<lambda>key. False)(UElement := True, UId := True)\<rparr>"
  let ?hov = "\<lparr>result = '':hover'', order = 5, used = (\<lambda>key. False)\<rparr>"
  have h: "builderChain [CallElement ''div'', CallId ''main''] = Inr ?sel"
    by (simp add: builderChain_def newCssSelector_def method_defs)
  have g: "builderChain [CallPseudoClass ''hover''] = Inr ?hov"
    by (simp add: builderChain_def newCssSelector_def method_defs)
  have "snd (invoke (CallId ''other'') ?sel) = Inl (Error uniqueMessage)"
    using second_occurrence_throws [OF h, of "CallId ''other''"] by simp
  moreover have "snd (invoke (CallElement ''p'') ?sel) = Inl (Error orderMessage)"
    using second_occurrence_throws [OF h, of "CallElement ''p''"] by simp
  moreover have "map_sum id stringify (snd (invoke (CallClass ''c'') ?sel)) = Inr ''div#main.c''"
    using second_occurrence_throws [OF h, of "CallClass ''c''"] by (simp add: stringify_def)
  moreover have "snd (invoke (CallAttr ''x'') ?hov) = Inl (Error orderMessage)"
    using second_occurrence_throws [OF g, of "CallAttr ''x''"] by simp
  ultimately show ?thesis using h g by simp
qed

text \<open>
  C10 as stated fails: a second \<open>id\<close> after a \<open>class\<close> throws the order message, not the
  uniqueness message, and a \<open>class\<close> after an \<open>attr\<close> throws as well.
\<close>

theorem second_id_after_class_counterexample:
  "builderChain [CallId ''main'', CallClass ''container'', CallId ''other''] =
     Inl (Error orderMessage) \<and>
   builderChain [CallId ''main'', CallClass ''container'', CallId ''other''] \<noteq>
     Inl (Error uniqueMessage) \<and>
   builderChain [CallAttr ''href'', CallClass ''container''] = Inl (Error orderMessage)"
  by (simp add: builderChain_def newCssSelector_def method_defs messages_differ)

end
